theory Spec2Isabelle
  imports Main
begin

section \<open>The Go values the registry handles\<close>

text \<open>
  \<^verbatim>\<open>mapper.go\<close> maps opaque pointers to Go values of type \<^verbatim>\<open>interface{}\<close>.
  An address is a natural number. An interface value is modelled by a datatype
  with the nil interface as a constructor of its own, so that a stored nil and
  a missing entry are different things, as they are in Go.
\<close>

type_synonym addr = nat

datatype go_value =
    GoNil
  | GoBool bool
  | GoInt int
  | GoString string
  | GoPointer addr
  | GoStruct "go_value list"

text \<open>
  The keys of a \<^verbatim>\<open>sync.Map\<close> are interface values too. Two interface values are
  equal when their dynamic types are identical and their values are equal, so
  a key is a dynamic type together with the pointer it holds. The two pointer
  types that \<^verbatim>\<open>mapper.go\<close> hands to the store are \<^verbatim>\<open>*mapperKey\<close> and
  \<^verbatim>\<open>unsafe.Pointer\<close>.
\<close>

datatype go_key =
    MapperKeyPtr addr
  | UnsafePointer addr

section \<open>The store: sync.Map\<close>

text \<open>
  \<^verbatim>\<open>sync.Map\<close> of the standard library, seen sequentially: a finite map with
  \<^verbatim>\<open>Store\<close>, \<^verbatim>\<open>Load\<close> and \<^verbatim>\<open>Delete\<close>. \<^verbatim>\<open>Load\<close> returns the zero
  interface and \<^verbatim>\<open>false\<close> on a key that is absent.
\<close>

type_synonym syncMap = "go_key \<rightharpoonup> go_value"

definition syncMap_Store :: "syncMap \<Rightarrow> go_key \<Rightarrow> go_value \<Rightarrow> syncMap" where
  "syncMap_Store sm key v = sm(key \<mapsto> v)"

definition syncMap_Load :: "syncMap \<Rightarrow> go_key \<Rightarrow> go_value \<times> bool" where
  "syncMap_Load sm key = (case sm key of None \<Rightarrow> (GoNil, False) | Some v \<Rightarrow> (v, True))"

definition syncMap_Delete :: "syncMap \<Rightarrow> go_key \<Rightarrow> syncMap" where
  "syncMap_Delete sm key = sm(key := None)"

section \<open>Allocation\<close>

text \<open>
  The heap is the list of the addresses of the live heap objects. The Go
  runtime's \<^verbatim>\<open>newobject\<close> returns the address of \<^verbatim>\<open>runtime.zerobase\<close> for every
  allocation of size zero and an address that no live object has otherwise.
  The allocator modelled here takes the address after the highest live one, so
  it hands an address out again once the object that had it was collected.
\<close>

type_synonym go_heap = "addr list"

definition zerobase :: addr where
  "zerobase = 1"

definition fresh_addr :: "go_heap \<Rightarrow> addr" where
  "fresh_addr h = Suc (fold max h zerobase)"

definition newobject :: "go_heap \<Rightarrow> nat \<Rightarrow> addr \<times> go_heap" where
  "newobject h sz =
     (if sz = 0 then (zerobase, h)
      else (let a = fresh_addr h in (a, a # h)))"

text \<open>
  \<^verbatim>\<open>type mapperKey struct { _ uint8 }\<close>: one byte, so that the struct is not
  empty.
\<close>

definition mapperKey_size :: nat where
  "mapperKey_size = 1"

section \<open>The registry\<close>

text \<open>\<^verbatim>\<open>type Mapper struct { m sync.Map }\<close>, and its zero value, which is what
  \<^verbatim>\<open>var G Mapper\<close> declares.\<close>

record Mapper =
  m :: syncMap

definition zero_Mapper :: Mapper where
  "zero_Mapper = \<lparr>m = Map.empty\<rparr>"


text \<open>
  \<^verbatim>\<open>fmt.Errorf("mapper: ptr not mapped: %p", k)\<close>: the verb \<^verbatim>\<open>%p\<close> prints the
  address in lower-case hexadecimal after \<^verbatim>\<open>0x\<close>.
\<close>

datatype error = Error string

definition hexdigit :: "nat \<Rightarrow> char" where
  "hexdigit d = ''0123456789abcdef'' ! d"

fun fmt_hex :: "nat \<Rightarrow> string" where
  "fmt_hex n = (if n < 16 then [hexdigit n] else fmt_hex (n div 16) @ [hexdigit (n mod 16)])"

declare fmt_hex.simps [simp del]

definition fmt_pointer :: "addr \<Rightarrow> string" where
  "fmt_pointer k = ''0x'' @ fmt_hex k"

definition ptr_not_mapped :: "addr \<Rightarrow> error" where
  "ptr_not_mapped k = Error (''mapper: ptr not mapped: '' @ fmt_pointer k)"

text \<open>
  The three methods. Each takes the registry it is called on and returns the
  registry after the call; \<^verbatim>\<open>New\<close> also takes and returns the heap, since it
  allocates. A panic is the left injection of the result.

  \<^verbatim>\<open>New\<close> stores under the key \<^verbatim>\<open>k\<close> of type \<^verbatim>\<open>*mapperKey\<close>; \<^verbatim>\<open>Get\<close> converts
  its argument to \<^verbatim>\<open>*mapperKey\<close> before the lookup; \<^verbatim>\<open>Delete\<close> passes its
  argument of type \<^verbatim>\<open>unsafe.Pointer\<close> to the store as it is.
\<close>

definition New :: "go_heap \<Rightarrow> Mapper \<Rightarrow> go_value \<Rightarrow> go_heap \<times> Mapper \<times> addr" where
  "New h mapper v =
     (let (k, h') = newobject h mapperKey_size;
          mapper' = mapper\<lparr>m := syncMap_Store (m mapper) (MapperKeyPtr k) v\<rparr>
      in (h', mapper', k))"

definition Get :: "Mapper \<Rightarrow> addr \<Rightarrow> Mapper \<times> (error + go_value)" where
  "Get mapper k =
     (let (v, ok) = syncMap_Load (m mapper) (MapperKeyPtr k)
      in if \<not> ok then (mapper, Inl (ptr_not_mapped k))
         else (mapper, Inr v))"

definition Delete :: "Mapper \<Rightarrow> addr \<Rightarrow> Mapper" where
  "Delete mapper k = mapper\<lparr>m := syncMap_Delete (m mapper) (UnsafePointer k)\<rparr>"

section \<open>Programs that use registries\<close>

text \<open>
  A program owns a heap and a family of registries, named by \<open>'r\<close>, and makes a
  sequence of calls. Besides the three methods, the garbage collector may run
  at any point and free any of the objects that no registry refers to: the
  keys of a \<^verbatim>\<open>sync.Map\<close> are ordinary Go references, while a token that was
  handed to C is not.
\<close>

record 'r world =
  heap :: go_heap
  mappers :: "'r \<Rightarrow> Mapper"

definition init_world :: "'r world" where
  "init_world = \<lparr>heap = [], mappers = (\<lambda>_. zero_Mapper)\<rparr>"

datatype 'r call =
    CallNew 'r go_value
  | CallGet 'r addr
  | CallDelete 'r addr
  | RunGC "addr list"

datatype outcome =
    Token addr
  | Got "error + go_value"
  | Deleted
  | Collected

definition referenced :: "'r world \<Rightarrow> addr \<Rightarrow> bool" where
  "referenced w a =
     (\<exists>r. m (mappers w r) (MapperKeyPtr a) \<noteq> None \<or> m (mappers w r) (UnsafePointer a) \<noteq> None)"

definition gc :: "'r world \<Rightarrow> addr list \<Rightarrow> 'r world" where
  "gc w frees = w\<lparr>heap := filter (\<lambda>a. a \<notin> set frees \<or> referenced w a) (heap w)\<rparr>"

fun step :: "'r world \<Rightarrow> 'r call \<Rightarrow> 'r world \<times> outcome" where
  "step w (CallNew r v) =
     (let (h', mapper', k) = New (heap w) (mappers w r) v
      in (w\<lparr>heap := h', mappers := (mappers w)(r := mapper')\<rparr>, Token k))"
| "step w (CallGet r k) =
     (let (mapper', res) = Get (mappers w r) k
      in (w\<lparr>mappers := (mappers w)(r := mapper')\<rparr>, Got res))"
| "step w (CallDelete r k) =
     (w\<lparr>mappers := (mappers w)(r := Delete (mappers w r) k)\<rparr>, Deleted)"
| "step w (RunGC frees) = (gc w frees, Collected)"

fun exec :: "'r world \<Rightarrow> 'r call list \<Rightarrow> 'r world \<times> ('r call \<times> outcome) list" where
  "exec w [] = (w, [])"
| "exec w (c # cs) =
     (let (w', out) = step w c;
          (w'', hist) = exec w' cs
      in (w'', (c, out) # hist))"

text \<open>The tokens that the calls of \<^verbatim>\<open>New\<close> on registry \<open>r\<close> returned, in order.\<close>

fun tokens_of :: "'r \<Rightarrow> ('r call \<times> outcome) list \<Rightarrow> addr list" where
  "tokens_of r [] = []"
| "tokens_of r ((CallNew r' v, Token k) # hist) =
     (if r' = r then k # tokens_of r hist else tokens_of r hist)"
| "tokens_of r (_ # hist) = tokens_of r hist"

section \<open>Invariants of a running program\<close>

text \<open>
  \<open>keyed w a\<close>: some registry has an entry under the \<^verbatim>\<open>*mapperKey\<close> at address
  \<open>a\<close>. \<open>heap_inv\<close>: every such marker is a live heap object. \<open>typed_inv\<close>:
  no registry has an entry under a key of type \<^verbatim>\<open>unsafe.Pointer\<close>.
\<close>

definition keyed :: "'r world \<Rightarrow> addr \<Rightarrow> bool" where
  "keyed w a = (\<exists>r. m (mappers w r) (MapperKeyPtr a) \<noteq> None)"

definition heap_inv :: "'r world \<Rightarrow> bool" where
  "heap_inv w = (\<forall>a. keyed w a \<longrightarrow> a \<in> set (heap w))"

definition typed_inv :: "'r world \<Rightarrow> bool" where
  "typed_inv w = (\<forall>r a. m (mappers w r) (UnsafePointer a) = None)"

text \<open>\<open>keys_of w r\<close>: the markers under which registry \<open>r\<close> has an entry.\<close>

definition keys_of :: "'r world \<Rightarrow> 'r \<Rightarrow> addr set" where
  "keys_of w r = {a. m (mappers w r) (MapperKeyPtr a) \<noteq> None}"

section \<open>The allocator returns an address that is not in use\<close>

lemma fold_max_lower: "b \<le> fold max h (b::nat)"
proof (induction h arbitrary: b)
  case Nil
  show ?case by simp
next
  case (Cons x xs)
  have "b \<le> max x b" by simp
  also have "max x b \<le> fold max xs (max x b)" by (rule Cons.IH)
  finally show ?case by simp
qed

lemma fold_max_upper: "a \<in> set h \<Longrightarrow> a \<le> fold max h (b::nat)"
proof (induction h arbitrary: b)
  case Nil
  then show ?case by simp
next
  case (Cons x xs)
  show ?case
  proof (cases "a = x")
    case True
    have "a \<le> max x b" using True by simp
    also have "max x b \<le> fold max xs (max x b)" by (rule fold_max_lower)
    finally show ?thesis by simp
  next
    case False
    with Cons.prems have "a \<in> set xs" by simp
    then show ?thesis using Cons.IH by simp
  qed
qed

lemma fresh_addr_notin: "fresh_addr h \<notin> set h"
proof
  assume "fresh_addr h \<in> set h"
  then have "fresh_addr h \<le> fold max h zerobase" by (rule fold_max_upper)
  then show False by (simp add: fresh_addr_def)
qed

lemma fresh_addr_not_zerobase: "fresh_addr h \<noteq> zerobase"
proof -
  have "zerobase \<le> fold max h zerobase" by (rule fold_max_lower)
  then show ?thesis by (simp add: fresh_addr_def)
qed

text \<open>Once the newest object is freed, the allocator hands its address out again.\<close>

lemma fresh_addr_reused:
  "fresh_addr (filter (\<lambda>a. a \<noteq> fresh_addr h) (fresh_addr h # h)) = fresh_addr h"
proof -
  have "filter (\<lambda>a. a \<noteq> fresh_addr h) h = h"
    using fresh_addr_notin [of h] by (auto intro: filter_True)
  then show ?thesis by simp
qed

section \<open>The methods, unfolded\<close>

lemma newobject_mapperKey:
  "newobject h mapperKey_size = (fresh_addr h, fresh_addr h # h)"
  by (simp add: newobject_def mapperKey_size_def Let_def)

lemma New_eq:
  "New h mapper v =
     (fresh_addr h # h, mapper\<lparr>m := (m mapper)(MapperKeyPtr (fresh_addr h) \<mapsto> v)\<rparr>, fresh_addr h)"
  by (simp add: New_def newobject_mapperKey syncMap_Store_def)

lemma Get_eq:
  "Get mapper k =
     (mapper, case m mapper (MapperKeyPtr k) of None \<Rightarrow> Inl (ptr_not_mapped k) | Some v \<Rightarrow> Inr v)"
  by (simp add: Get_def syncMap_Load_def split: option.split)

lemma m_Delete [simp]:
  "m (Delete mapper k) = (m mapper)(UnsafePointer k := None)"
  by (simp add: Delete_def syncMap_Delete_def)

lemma step_New:
  "step w (CallNew r v) =
     (w\<lparr>heap := fresh_addr (heap w) # heap w,
        mappers := (mappers w)
          (r := (mappers w r)\<lparr>m := (m (mappers w r))(MapperKeyPtr (fresh_addr (heap w)) \<mapsto> v)\<rparr>)\<rparr>,
      Token (fresh_addr (heap w)))"
  by (simp add: New_eq)

lemma step_Get:
  "step w (CallGet r k) = (w, Got (snd (Get (mappers w r) k)))"
  by (simp add: Get_eq)

lemma step_Delete:
  "step w (CallDelete r k) =
     (w\<lparr>mappers := (mappers w)(r := Delete (mappers w r) k)\<rparr>, Deleted)"
  by simp

lemma step_GC: "step w (RunGC frees) = (gc w frees, Collected)"
  by simp

declare step.simps [simp del]

section \<open>Every call keeps the invariants\<close>

lemma keyed_step: "keyed w a \<Longrightarrow> keyed (fst (step w c)) a"
proof (cases c)
  case (CallNew r v)
  assume "keyed w a"
  then obtain r' where "m (mappers w r') (MapperKeyPtr a) \<noteq> None"
    by (auto simp: keyed_def)
  then have "m (mappers (fst (step w (CallNew r v))) r') (MapperKeyPtr a) \<noteq> None"
    by (auto simp: step_New)
  then show ?thesis unfolding CallNew keyed_def by blast
next
  case (CallGet r k)
  assume "keyed w a"
  then show ?thesis by (simp add: CallGet step_Get)
next
  case (CallDelete r k)
  assume "keyed w a"
  then show ?thesis by (auto simp: CallDelete step_Delete keyed_def)
next
  case (RunGC frees)
  assume "keyed w a"
  then show ?thesis by (simp add: RunGC step_GC keyed_def gc_def)
qed

lemma heap_inv_step: "heap_inv w \<Longrightarrow> heap_inv (fst (step w c))"
proof (cases c)
  case (CallNew r v)
  assume "heap_inv w"
  then show ?thesis
    by (auto simp: CallNew step_New heap_inv_def keyed_def split: if_splits)
next
  case (CallGet r k)
  assume "heap_inv w"
  then show ?thesis by (simp add: CallGet step_Get)
next
  case (CallDelete r k)
  assume "heap_inv w"
  then show ?thesis by (auto simp: CallDelete step_Delete heap_inv_def keyed_def split: if_splits)
next
  case (RunGC frees)
  assume "heap_inv w"
  then show ?thesis
    by (auto simp: RunGC step_GC heap_inv_def gc_def keyed_def referenced_def)
qed

lemma typed_inv_step: "typed_inv w \<Longrightarrow> typed_inv (fst (step w c))"
proof (cases c)
  case (CallNew r v)
  assume "typed_inv w"
  then show ?thesis by (simp add: CallNew step_New typed_inv_def)
next
  case (CallGet r k)
  assume "typed_inv w"
  then show ?thesis by (simp add: CallGet step_Get)
next
  case (CallDelete r k)
  assume "typed_inv w"
  then show ?thesis by (simp add: CallDelete step_Delete typed_inv_def)
next
  case (RunGC frees)
  assume "typed_inv w"
  then show ?thesis by (simp add: RunGC step_GC typed_inv_def gc_def)
qed

lemma fst_exec_Cons: "fst (exec w (c # cs)) = fst (exec (fst (step w c)) cs)"
  by (simp add: split_beta)

lemma snd_exec_Cons:
  "snd (exec w (c # cs)) = (c, snd (step w c)) # snd (exec (fst (step w c)) cs)"
  by (simp add: split_beta)

declare exec.simps(2) [simp del]

lemma heap_inv_exec: "heap_inv w \<Longrightarrow> heap_inv (fst (exec w cs))"
proof (induction cs arbitrary: w)
  case Nil
  then show ?case by simp
next
  case (Cons c cs)
  from Cons.prems have "heap_inv (fst (step w c))" by (rule heap_inv_step)
  then have "heap_inv (fst (exec (fst (step w c)) cs))" by (rule Cons.IH)
  then show ?case by (simp only: fst_exec_Cons)
qed

lemma typed_inv_exec: "typed_inv w \<Longrightarrow> typed_inv (fst (exec w cs))"
proof (induction cs arbitrary: w)
  case Nil
  then show ?case by simp
next
  case (Cons c cs)
  from Cons.prems have "typed_inv (fst (step w c))" by (rule typed_inv_step)
  then have "typed_inv (fst (exec (fst (step w c)) cs))" by (rule Cons.IH)
  then show ?case by (simp only: fst_exec_Cons)
qed

lemma heap_inv_init: "heap_inv init_world"
  by (simp add: heap_inv_def keyed_def init_world_def zero_Mapper_def)

lemma typed_inv_init: "typed_inv init_world"
  by (simp add: typed_inv_def init_world_def zero_Mapper_def)

section \<open>An entry stays, and its marker is never handed out again\<close>

lemma entry_step:
  assumes "heap_inv w" and "m (mappers w r) (MapperKeyPtr t) = Some v"
  shows "m (mappers (fst (step w c)) r) (MapperKeyPtr t) = Some v"
proof (cases c)
  case (CallNew r' v')
  from assms(2) have "keyed w t" by (auto simp: keyed_def)
  with assms(1) have "t \<in> set (heap w)" by (simp add: heap_inv_def)
  then have "t \<noteq> fresh_addr (heap w)" using fresh_addr_notin [of "heap w"] by auto
  with assms(2) show ?thesis by (auto simp: CallNew step_New)
next
  case (CallGet r' k)
  with assms(2) show ?thesis by (simp add: step_Get)
next
  case (CallDelete r' k)
  with assms(2) show ?thesis by (auto simp: step_Delete)
next
  case (RunGC frees)
  with assms(2) show ?thesis by (simp add: step_GC gc_def)
qed

lemma entry_exec:
  "heap_inv w \<Longrightarrow> m (mappers w r) (MapperKeyPtr t) = Some v \<Longrightarrow>
   m (mappers (fst (exec w cs)) r) (MapperKeyPtr t) = Some v"
proof (induction cs arbitrary: w)
  case Nil
  then show ?case by simp
next
  case (Cons c cs)
  have "heap_inv (fst (step w c))" using Cons.prems(1) by (rule heap_inv_step)
  moreover have "m (mappers (fst (step w c)) r) (MapperKeyPtr t) = Some v"
    using Cons.prems by (rule entry_step)
  ultimately have "m (mappers (fst (exec (fst (step w c)) cs)) r) (MapperKeyPtr t) = Some v"
    by (rule Cons.IH)
  then show ?case by (simp only: fst_exec_Cons)
qed

lemma tokens_of_step:
  "tokens_of r ((c, snd (step w c)) # hist) =
     (if \<exists>v. c = CallNew r v then fresh_addr (heap w) # tokens_of r hist else tokens_of r hist)"
  by (cases c) (auto simp: step_New step_Get step_Delete step_GC)

lemma token_not_keyed:
  "heap_inv w \<Longrightarrow> keyed w a \<Longrightarrow> a \<notin> set (tokens_of r (snd (exec w cs)))"
proof (induction cs arbitrary: w)
  case Nil
  show ?case by simp
next
  case (Cons c cs)
  have "heap_inv (fst (step w c))" using Cons.prems(1) by (rule heap_inv_step)
  moreover have "keyed (fst (step w c)) a" using Cons.prems(2) by (rule keyed_step)
  ultimately have rest: "a \<notin> set (tokens_of r (snd (exec (fst (step w c)) cs)))"
    by (rule Cons.IH)
  from Cons.prems have "a \<in> set (heap w)" by (simp add: heap_inv_def)
  then have "a \<noteq> fresh_addr (heap w)" using fresh_addr_notin [of "heap w"] by auto
  with rest show ?case by (simp add: snd_exec_Cons tokens_of_step)
qed

lemma keyed_after_New: "keyed (fst (step w (CallNew r v))) (fresh_addr (heap w))"
  by (auto simp: keyed_def step_New)

lemma tokens_distinct:
  "heap_inv w \<Longrightarrow> distinct (tokens_of r (snd (exec w cs)))"
proof (induction cs arbitrary: w)
  case Nil
  show ?case by simp
next
  case (Cons c cs)
  have inv: "heap_inv (fst (step w c))" using Cons.prems by (rule heap_inv_step)
  then have rest: "distinct (tokens_of r (snd (exec (fst (step w c)) cs)))"
    by (rule Cons.IH)
  show ?case
  proof (cases "\<exists>v. c = CallNew r v")
    case True
    then obtain v where c: "c = CallNew r v" by blast
    have "fresh_addr (heap w) \<notin> set (tokens_of r (snd (exec (fst (step w c)) cs)))"
      using inv keyed_after_New [of w r v] unfolding c by (rule token_not_keyed)
    with rest True show ?thesis by (simp add: snd_exec_Cons tokens_of_step)
  next
    case False
    with rest show ?thesis by (simp add: snd_exec_Cons tokens_of_step)
  qed
qed

section \<open>The diagnostic determines the pointer\<close>

lemma hexdigit_inj: "a < 16 \<Longrightarrow> b < 16 \<Longrightarrow> hexdigit a = hexdigit b \<Longrightarrow> a = b"
proof -
  assume a: "a < 16" and b: "b < 16" and eq: "hexdigit a = hexdigit b"
  have d: "distinct ''0123456789abcdef''" by simp
  have la: "a < length ''0123456789abcdef''" using a by simp
  have lb: "b < length ''0123456789abcdef''" using b by simp
  from eq have "''0123456789abcdef'' ! a = ''0123456789abcdef'' ! b"
    by (simp only: hexdigit_def)
  with d la lb show "a = b" by (simp only: nth_eq_iff_index_eq)
qed

lemma fmt_hex_small: "n < 16 \<Longrightarrow> fmt_hex n = [hexdigit n]"
  by (subst fmt_hex.simps) simp

lemma fmt_hex_large:
  "\<not> n < 16 \<Longrightarrow> fmt_hex n = fmt_hex (n div 16) @ [hexdigit (n mod 16)]"
  by (subst fmt_hex.simps) simp

lemma fmt_hex_nonempty: "fmt_hex n \<noteq> []"
  by (cases "n < 16") (simp_all add: fmt_hex_small fmt_hex_large)

lemma fmt_hex_inj: "fmt_hex n = fmt_hex k \<Longrightarrow> n = k"
proof (induction n arbitrary: k rule: fmt_hex.induct)
  case (1 n)
  show ?case
  proof (cases "n < 16")
    case small_n: True
    show ?thesis
    proof (cases "k < 16")
      case True
      with small_n "1.prems" have "hexdigit n = hexdigit k"
        by (simp add: fmt_hex_small)
      with small_n True show ?thesis by (rule hexdigit_inj)
    next
      case False
      with small_n "1.prems" have "[hexdigit n] = fmt_hex (k div 16) @ [hexdigit (k mod 16)]"
        by (simp add: fmt_hex_small fmt_hex_large)
      then have "fmt_hex (k div 16) = []" by simp
      then show ?thesis by (simp add: fmt_hex_nonempty)
    qed
  next
    case large_n: False
    show ?thesis
    proof (cases "k < 16")
      case True
      with large_n "1.prems" have "fmt_hex (n div 16) @ [hexdigit (n mod 16)] = [hexdigit k]"
        by (simp add: fmt_hex_small fmt_hex_large)
      then have "fmt_hex (n div 16) = []" by simp
      then show ?thesis by (simp add: fmt_hex_nonempty)
    next
      case False
      with large_n "1.prems"
      have "fmt_hex (n div 16) @ [hexdigit (n mod 16)] = fmt_hex (k div 16) @ [hexdigit (k mod 16)]"
        by (simp add: fmt_hex_large)
      then have hi: "fmt_hex (n div 16) = fmt_hex (k div 16)"
        and lo: "hexdigit (n mod 16) = hexdigit (k mod 16)" by simp_all
      from large_n hi have "n div 16 = k div 16" by (rule "1.IH")
      moreover have "n mod 16 = k mod 16"
        using _ _ lo by (rule hexdigit_inj) simp_all
      ultimately show ?thesis by (metis div_mult_mod_eq)
    qed
  qed
qed

lemma ptr_not_mapped_inj: "ptr_not_mapped k = ptr_not_mapped k' \<Longrightarrow> k = k'"
  by (simp add: ptr_not_mapped_def fmt_pointer_def fmt_hex_inj)

section \<open>What each method does to the entries\<close>

lemma Get_unmapped_panics:
  "m mapper (MapperKeyPtr k) = None \<Longrightarrow> Get mapper k = (mapper, Inl (ptr_not_mapped k))"
  by (simp add: Get_eq)

lemma Delete_keeps_entries:
  "m (Delete mapper k) (MapperKeyPtr k') = m mapper (MapperKeyPtr k')"
  by simp

lemma newobject_empty_shared: "fst (newobject h 0) = fst (newobject h' 0)"
  by (simp add: newobject_def)

lemma typed_Delete_noop: "typed_inv w \<Longrightarrow> Delete (mappers w r) k = mappers w r"
proof -
  assume "typed_inv w"
  then have "m (mappers w r) (UnsafePointer k) = None" by (simp add: typed_inv_def)
  then have "(m (mappers w r))(UnsafePointer k := None) = m (mappers w r)" by auto
  then show ?thesis by (simp add: Delete_def syncMap_Delete_def)
qed

section \<open>The entries of a registry are the tokens it issued\<close>

lemma keys_of_step:
  "keys_of (fst (step w c)) r =
     (if \<exists>v. c = CallNew r v then insert (fresh_addr (heap w)) (keys_of w r) else keys_of w r)"
  by (cases c) (auto simp: keys_of_def step_New step_Get step_Delete step_GC gc_def)

lemma keys_of_exec:
  "keys_of (fst (exec w cs)) r = keys_of w r \<union> set (tokens_of r (snd (exec w cs)))"
proof (induction cs arbitrary: w)
  case Nil
  show ?case by simp
next
  case (Cons c cs)
  have "keys_of (fst (exec w (c # cs))) r =
        keys_of (fst (step w c)) r \<union> set (tokens_of r (snd (exec (fst (step w c)) cs)))"
    by (simp only: fst_exec_Cons Cons.IH)
  then show ?case by (auto simp: keys_of_step snd_exec_Cons tokens_of_step)
qed

lemma keys_of_init: "keys_of init_world r = {}"
  by (simp add: keys_of_def init_world_def zero_Mapper_def)

lemma tokens_of_disjoint:
  "heap_inv w \<Longrightarrow> rA \<noteq> rB \<Longrightarrow>
   set (tokens_of rA (snd (exec w cs))) \<inter> set (tokens_of rB (snd (exec w cs))) = {}"
proof (induction cs arbitrary: w)
  case Nil
  show ?case by simp
next
  case (Cons c cs)
  let ?w' = "fst (step w c)"
  have inv: "heap_inv ?w'" using Cons.prems(1) by (rule heap_inv_step)
  from inv Cons.prems(2)
  have rest: "set (tokens_of rA (snd (exec ?w' cs))) \<inter> set (tokens_of rB (snd (exec ?w' cs))) = {}"
    by (rule Cons.IH)
  have fresh: "fresh_addr (heap w) \<notin> set (tokens_of r' (snd (exec ?w' cs)))"
    if "c = CallNew r v" for r r' v
    using inv keyed_after_New [of w r v] unfolding that by (rule token_not_keyed)
  show ?case
  proof (cases c)
    case (CallNew r v)
    with rest fresh [OF CallNew] Cons.prems(2) show ?thesis
      by (auto simp: snd_exec_Cons tokens_of_step)
  next
    case (CallGet r k)
    with rest show ?thesis by (simp add: snd_exec_Cons tokens_of_step)
  next
    case (CallDelete r k)
    with rest show ?thesis by (simp add: snd_exec_Cons tokens_of_step)
  next
    case (RunGC frees)
    with rest show ?thesis by (simp add: snd_exec_Cons tokens_of_step)
  qed
qed

lemma Get_never_issued_panics:
  assumes "k \<notin> set (tokens_of r (snd (exec init_world cs)))"
  shows "snd (Get (mappers (fst (exec init_world cs)) r) k) = Inl (ptr_not_mapped k)"
proof -
  have "keys_of (fst (exec init_world cs)) r = set (tokens_of r (snd (exec init_world cs)))"
    by (simp add: keys_of_exec keys_of_init)
  with assms have "k \<notin> keys_of (fst (exec init_world cs)) r" by simp
  then show ?thesis by (simp add: keys_of_def Get_eq)
qed

lemma Get_foreign_token_panics:
  assumes "k \<in> set (tokens_of rA (snd (exec init_world cs)))" and "rA \<noteq> rB"
  shows "snd (Get (mappers (fst (exec init_world cs)) rB) k) = Inl (ptr_not_mapped k)"
proof -
  from heap_inv_init assms(2)
  have "set (tokens_of rA (snd (exec init_world cs)))
        \<inter> set (tokens_of rB (snd (exec init_world cs))) = {}"
    by (rule tokens_of_disjoint)
  with assms(1) have "k \<notin> set (tokens_of rB (snd (exec init_world cs)))" by auto
  then show ?thesis by (rule Get_never_issued_panics)
qed

section \<open>Evaluating a concrete run\<close>

lemmas run_simps =
  fst_exec_Cons snd_exec_Cons step_New step_Get step_Delete step_GC Get_eq
  init_world_def zero_Mapper_def fresh_addr_def zerobase_def gc_def referenced_def ex_bool_eq

section \<open>The claims\<close>

text \<open>
  C1. The claim: after \<^verbatim>\<open>Delete(t)\<close> with \<^verbatim>\<open>t = New(v)\<close>, \<^verbatim>\<open>Get(t)\<close> panics.
  What the code does, for every heap, registry and value: \<^verbatim>\<open>Delete\<close> asks the
  store to remove the key \<^verbatim>\<open>k\<close> of type \<^verbatim>\<open>unsafe.Pointer\<close>, the entry is under
  a key of type \<^verbatim>\<open>*mapperKey\<close>, so the entry stays and \<^verbatim>\<open>Get(t)\<close> returns \<open>v\<close>.
\<close>

theorem Get_after_Delete_returns_value:
  "(case New h mapper v of (h', mapper', t) \<Rightarrow> snd (Get (Delete mapper' t) t)) = Inr v"
  by (simp add: New_eq Get_eq)

text \<open>
  C2. Round trip. In a program that starts with zero-valued registries and has
  made any calls \<open>cs0\<close>, let \<^verbatim>\<open>New(v)\<close> on registry \<open>r\<close> return the token \<open>t\<close>.
  After any further calls \<open>cs\<close> (calls of \<^verbatim>\<open>New\<close>, \<^verbatim>\<open>Get\<close> and \<^verbatim>\<open>Delete\<close> on
  any registry, and runs of the collector) among which \<open>t\<close> is not deleted from
  \<open>r\<close>, \<^verbatim>\<open>Get(t)\<close> on \<open>r\<close> returns \<open>v\<close> itself. With \<open>cs = []\<close> this is
  \<^verbatim>\<open>Get(New(v)) == v\<close>.
\<close>

theorem Get_New_roundtrip:
  assumes "step (fst (exec init_world cs0)) (CallNew r v) = (w1, Token t)"
      and "CallDelete r t \<notin> set cs"
  shows "snd (Get (mappers (fst (exec w1 cs)) r) t) = Inr v"
proof -
  let ?w0 = "fst (exec init_world cs0)"
  have inv0: "heap_inv ?w0" using heap_inv_init by (rule heap_inv_exec)
  have w1: "w1 = fst (step ?w0 (CallNew r v))" using assms(1) by simp
  have inv1: "heap_inv w1" unfolding w1 using inv0 by (rule heap_inv_step)
  have t: "t = fresh_addr (heap ?w0)" using assms(1) by (simp add: step_New)
  have "m (mappers w1 r) (MapperKeyPtr t) = Some v"
    unfolding w1 t by (simp add: step_New)
  with inv1 have "m (mappers (fst (exec w1 cs)) r) (MapperKeyPtr t) = Some v"
    by (rule entry_exec)
  then show ?thesis by (simp add: Get_eq)
qed

theorem Get_New_roundtrip_witness:
  "step (fst (exec (init_world :: bool world) [CallNew False GoNil])) (CallNew True (GoString ''alpha''))
     = (fst (step (fst (exec init_world [CallNew False GoNil])) (CallNew True (GoString ''alpha''))), Token 3)
   \<and> CallDelete True 3 \<notin> set [CallGet True 3, RunGC [2, 3], CallNew True (GoString ''alpha''),
         CallDelete False 3, CallDelete True 2]
   \<and> snd (Get (mappers (fst (exec
         (fst (step (fst (exec (init_world :: bool world) [CallNew False GoNil]))
            (CallNew True (GoString ''alpha''))))
         [CallGet True 3, RunGC [2, 3], CallNew True (GoString ''alpha''),
          CallDelete False 3, CallDelete True 2])) True) 3) = Inr (GoString ''alpha'')"
proof -
  let ?w0 = "fst (exec (init_world :: bool world) [CallNew False GoNil])"
  let ?c = "CallNew True (GoString ''alpha'')"
  let ?cs = "[CallGet True 3, RunGC [2, 3], CallNew True (GoString ''alpha''),
              CallDelete False 3, CallDelete True 2]"
  have h1: "step ?w0 ?c = (fst (step ?w0 ?c), Token 3)"
    by (simp add: run_simps)
  have h2: "CallDelete True 3 \<notin> set ?cs" by simp
  from Get_New_roundtrip [OF h1 h2] h1 h2 show ?thesis by simp
qed

text \<open>
  C3. Token distinctness. The marker has a size other than zero, and in every
  program that starts with zero-valued registries the tokens that the calls of
  \<^verbatim>\<open>New\<close> on one registry returned are pairwise distinct, whatever the values
  stored, whatever other calls were made in between and whenever the collector
  ran.
\<close>

theorem New_tokens_distinct:
  "0 < mapperKey_size \<and> distinct (tokens_of r (snd (exec init_world cs)))"
  using tokens_distinct [OF heap_inv_init] by (simp add: mapperKey_size_def)

text \<open>
  C4. The claim: \<^verbatim>\<open>Get\<close> panics on every token that is not mapped, a token
  that was already deleted among them. What the code does when a program's
  first calls are \<^verbatim>\<open>t := New(v); Delete(t); Get(t)\<close> on one registry: the token
  is \<open>2\<close>, \<^verbatim>\<open>Delete\<close> leaves the entry (see C1), and \<^verbatim>\<open>Get\<close> returns \<open>v\<close>. On a
  token with no entry \<^verbatim>\<open>Get\<close> does panic, with a message that determines the
  token: lemmas \<open>Get_unmapped_panics\<close>, \<open>Get_never_issued_panics\<close>,
  \<open>Get_foreign_token_panics\<close> and \<open>ptr_not_mapped_inj\<close>.
\<close>

theorem Get_after_Delete_trace:
  "snd (exec init_world [CallNew r v, CallDelete r 2, CallGet r 2]) =
     [(CallNew r v, Token 2), (CallDelete r 2, Deleted), (CallGet r 2, Got (Inr v))]"
  by (simp add: fst_exec_Cons snd_exec_Cons step_New step_Get step_Delete Get_eq
        init_world_def zero_Mapper_def fresh_addr_def zerobase_def)

text \<open>
  C5. Idempotent delete. In a program that starts with zero-valued registries,
  \<^verbatim>\<open>Delete\<close> of a token that registry \<open>r\<close> does not map leaves \<open>r\<close> as it was.
  On any registry a second \<^verbatim>\<open>Delete(t)\<close> changes nothing, and in any world
  the two calls in a row both return normally and leave the world that the
  first call left.
\<close>

theorem Delete_unmapped_noop:
  assumes "m (mappers (fst (exec init_world cs)) r) (MapperKeyPtr t) = None"
  shows "Delete (mappers (fst (exec init_world cs)) r) t = mappers (fst (exec init_world cs)) r
    \<and> Delete (Delete mapper t) t = Delete mapper t
    \<and> snd (exec w [CallDelete r t, CallDelete r t]) = [(CallDelete r t, Deleted), (CallDelete r t, Deleted)]
    \<and> fst (exec w [CallDelete r t, CallDelete r t]) = fst (exec w [CallDelete r t])"
proof -
  have "typed_inv (fst (exec init_world cs))"
    using typed_inv_init by (rule typed_inv_exec)
  then have a: "Delete (mappers (fst (exec init_world cs)) r) t = mappers (fst (exec init_world cs)) r"
    by (rule typed_Delete_noop)
  have b: "Delete (Delete mapper t) t = Delete mapper t"
    by (simp add: Delete_def syncMap_Delete_def)
  have c: "snd (exec w [CallDelete r t, CallDelete r t]) = [(CallDelete r t, Deleted), (CallDelete r t, Deleted)]"
    by (simp add: snd_exec_Cons step_Delete)
  have d: "fst (exec w [CallDelete r t, CallDelete r t]) = fst (exec w [CallDelete r t])"
    by (simp add: fst_exec_Cons step_Delete Delete_def syncMap_Delete_def)
  from a b c d show ?thesis by simp
qed

theorem Delete_unmapped_noop_witness:
  "m (mappers (fst (exec (init_world :: bool world) [CallNew True GoNil])) True) (MapperKeyPtr 7) = None
   \<and> Delete (mappers (fst (exec (init_world :: bool world) [CallNew True GoNil])) True) 7
       = mappers (fst (exec init_world [CallNew True GoNil])) True
   \<and> Delete (Delete zero_Mapper 7) 7 = Delete zero_Mapper 7
   \<and> snd (exec (init_world :: bool world) [CallDelete True 7, CallDelete True 7])
       = [(CallDelete True 7, Deleted), (CallDelete True 7, Deleted)]
   \<and> fst (exec (init_world :: bool world) [CallDelete True 7, CallDelete True 7])
       = fst (exec init_world [CallDelete True 7])"
proof -
  have h: "m (mappers (fst (exec (init_world :: bool world) [CallNew True GoNil])) True)
             (MapperKeyPtr 7) = None"
    by (simp add: run_simps)
  from Delete_unmapped_noop [OF h, of zero_Mapper "init_world :: bool world"] h
  show ?thesis by simp
qed

text \<open>
  C6. The claim: \<^verbatim>\<open>Delete(t1)\<close> leaves the mapping of every other token as it
  was, and in the example \<^verbatim>\<open>t1 := New("alpha"); t2 := New("alpha")\<close> the tokens
  differ, \<^verbatim>\<open>Get(t1)\<close> is \<^verbatim>\<open>"alpha"\<close>, \<^verbatim>\<open>Get(t1)\<close> panics after \<^verbatim>\<open>Delete(t1)\<close> and
  \<^verbatim>\<open>Get(t2)\<close> is still \<^verbatim>\<open>"alpha"\<close>. What the code does on the example: all of
  it but the panic; \<^verbatim>\<open>Get(t1)\<close> after \<^verbatim>\<open>Delete(t1)\<close> returns \<^verbatim>\<open>"alpha"\<close>, for
  the reason given at C1. That the other entries stay is lemma
  \<open>Delete_keeps_entries\<close>.
\<close>

theorem end_to_end_example:
  "snd (exec init_world
     [CallNew r (GoString ''alpha''), CallNew r (GoString ''alpha''),
      CallGet r 2, CallDelete r 2, CallGet r 2, CallGet r 3]) =
     [(CallNew r (GoString ''alpha''), Token 2),
      (CallNew r (GoString ''alpha''), Token 3),
      (CallGet r 2, Got (Inr (GoString ''alpha''))),
      (CallDelete r 2, Deleted),
      (CallGet r 2, Got (Inr (GoString ''alpha''))),
      (CallGet r 3, Got (Inr (GoString ''alpha'')))]"
  by (simp add: fst_exec_Cons snd_exec_Cons step_New step_Get step_Delete Get_eq
        init_world_def zero_Mapper_def fresh_addr_def zerobase_def)

text \<open>
  C7. \<^verbatim>\<open>Get\<close> only observes: the registry after the call is the registry
  before it, and so is the whole world, whether the lookup succeeds or panics.
\<close>

theorem Get_pure:
  "fst (Get mapper k) = mapper \<and> fst (step w (CallGet r k)) = w"
  by (simp add: Get_eq step_Get)

text \<open>
  C9. A stored nil is not a missing entry. \<^verbatim>\<open>Get(New(nil))\<close> returns nil and
  does not panic; \<^verbatim>\<open>Get\<close> panics exactly when the flag that \<^verbatim>\<open>Load\<close> returns
  is false; an entry that holds nil is found; and on a registry with no entry
  \<^verbatim>\<open>Load\<close> returns the same nil as its value, and there \<^verbatim>\<open>Get\<close> panics.
\<close>

theorem Get_stored_nil:
  "(case New h mapper GoNil of (h', mapper', t) \<Rightarrow> snd (Get mapper' t)) = Inr GoNil
   \<and> ((\<exists>e. snd (Get mapper k) = Inl e) = (\<not> snd (syncMap_Load (m mapper) (MapperKeyPtr k))))
   \<and> snd (Get (mapper\<lparr>m := syncMap_Store (m mapper) (MapperKeyPtr k) GoNil\<rparr>) k) = Inr GoNil
   \<and> fst (syncMap_Load (m zero_Mapper) (MapperKeyPtr k)) = GoNil
   \<and> snd (Get zero_Mapper k) = Inl (ptr_not_mapped k)"
  by (simp add: New_eq Get_eq syncMap_Load_def syncMap_Store_def zero_Mapper_def
        split: option.split)


end
